theory Spec2Isabelle
  imports Complex_Main "HOL-Library.AList" "HOL-Library.Char_ord" "HOL-Library.List_Lexorder"
begin

section \<open>Strings\<close>

text \<open>
  A Python \<open>str\<close> is modelled as a \<open>string\<close> (a list of characters); the characters
  are the code points below 256. The string operations the parsers use are written out.
\<close>

text \<open>\<open>s.startswith(p)\<close>\<close>

fun startswith :: "string \<Rightarrow> string \<Rightarrow> bool" where
  "startswith s [] = True"
| "startswith [] (p # ps) = False"
| "startswith (c # cs) (p # ps) = (c = p \<and> startswith cs ps)"

text \<open>\<open>p in s\<close>: \<open>p\<close> occurs in \<open>s\<close> as a substring.\<close>

fun contains :: "string \<Rightarrow> string \<Rightarrow> bool" where
  "contains p [] = (p = [])"
| "contains p (c # cs) = (startswith (c # cs) p \<or> contains p cs)"

text \<open>\<open>s.split(sep)\<close> for a one-character separator: never an empty list.\<close>

fun split_on :: "char \<Rightarrow> string \<Rightarrow> string list" where
  "split_on sep [] = [[]]"
| "split_on sep (c # cs) =
     (if c = sep then [] # split_on sep cs
      else (case split_on sep cs of
              [] \<Rightarrow> [[c]]
            | l # ls \<Rightarrow> (c # l) # ls))"

text \<open>\<open>s.split(sep, 1)\<close> for a one-character separator: one split at most.\<close>

definition split1 :: "char \<Rightarrow> string \<Rightarrow> string list" where
  "split1 sep s =
     (if sep \<in> set s
      then [takeWhile (\<lambda>c. c \<noteq> sep) s, tl (dropWhile (\<lambda>c. c \<noteq> sep) s)]
      else [s])"

text \<open>The characters \<open>str.isspace\<close> accepts, among the code points below 256.\<close>

definition whitespace :: "char list" where
  "whitespace =
     [CHR 0x09, CHR 0x0A, CHR 0x0B, CHR 0x0C, CHR 0x0D,
      CHR 0x1C, CHR 0x1D, CHR 0x1E, CHR 0x1F, CHR 0x20, CHR 0x85, CHR 0xA0]"

text \<open>\<open>s.strip(chars)\<close> and \<open>s.strip()\<close>\<close>

definition strip_chars :: "char list \<Rightarrow> string \<Rightarrow> string" where
  "strip_chars cs s =
     rev (dropWhile (\<lambda>c. c \<in> set cs) (rev (dropWhile (\<lambda>c. c \<in> set cs) s)))"

definition strip :: "string \<Rightarrow> string" where
  "strip s = strip_chars whitespace s"

section \<open>Dictionaries and errors\<close>

text \<open>
  A Python \<open>dict\<close> is an association list in insertion order with distinct keys:
  \<open>d[k] = v\<close> is \<open>AList.update k v d\<close>, \<open>d.get(k)\<close> is \<open>map_of d k\<close>, and a dict is
  falsy exactly when it is \<open>[]\<close>.
\<close>

type_synonym 'v dict = "(string \<times> 'v) list"

datatype error = IndexError

text \<open>\<open>xs[i]\<close> for \<open>i \<ge> 0\<close>\<close>

definition py_index :: "'a list \<Rightarrow> nat \<Rightarrow> error + 'a" where
  "py_index xs i = (if i < length xs then Inr (xs ! i) else Inl IndexError)"

section \<open>analyze\_framery\_pricing.py: parse\_price\_records\<close>

record pstate =
  prices :: "string dict list"
  current_record :: "string dict"
  in_records :: bool

definition marker :: string where
  "marker = ''=== Records from ocd_price''"

text \<open>\<open>if current_record: prices.append(current_record)\<close>\<close>

definition flush :: "'v dict list \<Rightarrow> 'v dict \<Rightarrow> 'v dict list" where
  "flush ps cur = (if cur \<noteq> [] then ps @ [cur] else ps)"

text \<open>The body of the loop of \<open>parse_price_records\<close>, for one line.\<close>

definition price_line :: "pstate \<Rightarrow> string \<Rightarrow> error + pstate" where
  "price_line st line =
     (if contains marker line then Inr (st\<lparr>in_records := True\<rparr>)
      else if \<not> in_records st then Inr st
      else if startswith line ''Record '' then
        Inr (st\<lparr>prices := flush (prices st) (current_record st), current_record := []\<rparr>)
      else if contains '':'' line \<and> \<not> startswith (strip line) ''Table:'' then
        (let parts = split1 CHR '':'' line in
         if length parts = 2 then
           (case py_index parts 0 of
              Inl e \<Rightarrow> Inl e
            | Inr p0 \<Rightarrow>
               (case py_index parts 1 of
                  Inl e \<Rightarrow> Inl e
                | Inr p1 \<Rightarrow>
                    Inr (st\<lparr>current_record :=
                      AList.update (strip p0) (strip_chars [CHR 0x27] (strip p1))
                        (current_record st)\<rparr>)))
         else Inr st)
      else Inr st)"

fun price_loop :: "pstate \<Rightarrow> string list \<Rightarrow> error + pstate" where
  "price_loop st [] = Inr st"
| "price_loop st (line # lines) =
     (case price_line st line of
        Inl e \<Rightarrow> Inl e
      | Inr st' \<Rightarrow> price_loop st' lines)"

definition parse_price_records :: "string \<Rightarrow> error + string dict list" where
  "parse_price_records output =
     (case price_loop \<lparr>prices = [], current_record = [], in_records = False\<rparr>
             (split_on CHR 0x0A output) of
        Inl e \<Rightarrow> Inl e
      | Inr st \<Rightarrow> Inr (flush (prices st) (current_record st)))"

section \<open>Regular expressions of the extractors\<close>

definition quote :: char where
  "quote = CHR 0x27"

text \<open>
  The extractors search a line with \<open>re.search(name + ": '([^']+)'", line)\<close> or with
  \<open>re.search(name + ": '([^']*)'", line)\<close> and read \<open>group(1)\<close>. \<open>match_here nonempty pat s\<close>
  matches at the start of \<open>s\<close>, where \<open>pat\<close> is the literal text up to and including the
  opening quote and \<open>nonempty\<close> says that the group is \<open>[^']+\<close>: after \<open>pat\<close> the group takes
  the longest run of characters other than quotes, and a quote has to follow it.
\<close>

definition match_here :: "bool \<Rightarrow> string \<Rightarrow> string \<Rightarrow> string option" where
  "match_here nonempty pat s =
     (if startswith s pat then
        (let rest = drop (length pat) s;
             v = takeWhile (\<lambda>c. c \<noteq> quote) rest
         in if length v < length rest \<and> (nonempty \<longrightarrow> v \<noteq> []) then Some v else None)
      else None)"

text \<open>\<open>re.search\<close>: the leftmost match; \<open>None\<close> when there is none.\<close>

fun re_search :: "bool \<Rightarrow> string \<Rightarrow> string \<Rightarrow> string option" where
  "re_search nonempty pat [] = match_here nonempty pat []"
| "re_search nonempty pat (c # cs) =
     (case match_here nonempty pat (c # cs) of
        Some v \<Rightarrow> Some v
      | None \<Rightarrow> re_search nonempty pat cs)"

section \<open>analyze\_framery.py\<close>

text \<open>\<open>extract_property_classes\<close>: the loop collects into a set, the result is sorted.\<close>

definition property_class_line :: "string list \<Rightarrow> string \<Rightarrow> string list" where
  "property_class_line classes line =
     (if contains ''prop_class:'' line then
        (case re_search True (''prop_class: '' @ [quote]) line of
           Some v \<Rightarrow> List.insert v classes
         | None \<Rightarrow> classes)
      else classes)"

definition extract_property_classes :: "string \<Rightarrow> string list" where
  "extract_property_classes output =
     sort (foldl property_class_line [] (split_on CHR 0x0A output))"

definition article_line ::
  "string dict list \<times> string dict \<Rightarrow> string \<Rightarrow> string dict list \<times> string dict" where
  "article_line st line =
     (case st of (articles, current_article) \<Rightarrow>
        if startswith line ''Record'' then (flush articles current_article, [])
        else if contains ''article_nr:'' line then
          (case re_search True (''article_nr: '' @ [quote]) line of
             Some v \<Rightarrow> (articles, AList.update ''article_nr'' v current_article)
           | None \<Rightarrow> (articles, current_article))
        else if contains ''series:'' line then
          (case re_search True (''series: '' @ [quote]) line of
             Some v \<Rightarrow> (articles, AList.update ''series'' v current_article)
           | None \<Rightarrow> (articles, current_article))
        else (articles, current_article))"

definition extract_articles :: "string \<Rightarrow> string dict list" where
  "extract_articles output =
     (case foldl article_line ([], []) (split_on CHR 0x0A output) of
        (articles, current_article) \<Rightarrow> flush articles current_article)"

text \<open>
  \<open>main\<close>, lines 147 to 160: \<open>all_series_data\<close> maps a series name to what was read for
  the series; the verdict is printed, and nothing is printed when there is no series.
\<close>

record series_data =
  path :: string
  property_classes :: "string list"
  articles :: "string dict list"
  mappings :: "string dict list"

datatype verdict = Shared | SeriesSpecific

definition sharing_verdict :: "series_data dict \<Rightarrow> verdict option" where
  "sharing_verdict all_series_data =
     (case map snd all_series_data of
        [] \<Rightarrow> None
      | first # _ \<Rightarrow>
          (let first_series_classes = set (property_classes first);
               all_same = list_all (\<lambda>data. set (property_classes data) = first_series_classes)
                            (map snd all_series_data)
           in Some (if all_same then Shared else SeriesSpecific)))"

section \<open>compare\_framery\_fast.py\<close>

text \<open>The inner loop of \<open>extract_price_data\<close>, for one field name.\<close>

definition field_step :: "string \<Rightarrow> string dict \<Rightarrow> string \<Rightarrow> string dict" where
  "field_step line current_price field =
     (if contains (field @ '':'') line then
        (case re_search False (field @ '': '' @ [quote]) line of
           Some v \<Rightarrow> AList.update field v current_price
         | None \<Rightarrow> current_price)
      else current_price)"

definition price_fields :: "string list" where
  "price_fields = [''article_nr'', ''var_cond'', ''price_level'']"

definition price_data_line ::
  "string dict list \<times> string dict \<Rightarrow> string \<Rightarrow> string dict list \<times> string dict" where
  "price_data_line st line =
     (case st of (price_list, current_price) \<Rightarrow>
        if startswith line ''Record'' then (flush price_list current_price, [])
        else (price_list, foldl (field_step line) current_price price_fields))"

definition extract_price_data :: "string \<Rightarrow> string dict list" where
  "extract_price_data output =
     (case foldl price_data_line ([], []) (split_on CHR 0x0A output) of
        (price_list, current_price) \<Rightarrow> flush price_list current_price)"

text \<open>
  The diagnostic of lines 95 and 124, \<open>any(ident in pc for pc in prop_classes)\<close>: it is
  printed, and no verdict is computed from it.
\<close>

definition contains_series_id :: "string \<Rightarrow> string list \<Rightarrow> bool" where
  "contains_series_id ident prop_classes = list_ex (\<lambda>pc. contains ident pc) prop_classes"

section \<open>analyze\_framery\_pricing.py: the price classifier\<close>

text \<open>
  \<open>analyze_manufacturer\<close> separates the parsed records by \<open>p.get('price_level')\<close>, which
  is \<open>None\<close> for a record without the key. The dump \<open>output\<close> of the external tool is a
  parameter; printing is left out.
\<close>

definition base_of :: "string dict list \<Rightarrow> string dict list" where
  "base_of ps = filter (\<lambda>p. map_of p ''price_level'' = Some ''B'') ps"

definition surcharges_of :: "string dict list \<Rightarrow> string dict list" where
  "surcharges_of ps = filter (\<lambda>p. map_of p ''price_level'' = Some ''X'') ps"

definition corrupt_of :: "string dict list \<Rightarrow> string dict list" where
  "corrupt_of ps = filter (\<lambda>p. map_of p ''price_level'' \<notin> set [Some ''B'', Some ''X'']) ps"

record analysis =
  r_name :: string
  r_total :: nat
  r_base :: nat
  r_surcharges :: nat
  r_corrupt :: nat
  r_base_prices :: "string dict list"

definition analyze_manufacturer :: "string \<Rightarrow> string \<Rightarrow> error + analysis" where
  "analyze_manufacturer mname output =
     (case parse_price_records output of
        Inl e \<Rightarrow> Inl e
      | Inr ps \<Rightarrow>
          Inr \<lparr>r_name = mname, r_total = length ps, r_base = length (base_of ps),
               r_surcharges = length (surcharges_of ps), r_corrupt = length (corrupt_of ps),
               r_base_prices = base_of ps\<rparr>)"

text \<open>The key finding \<open>main\<close> prints for one result.\<close>

datatype finding = WARNING_no_base_prices string | OK_base_prices string nat

definition key_finding :: "analysis \<Rightarrow> finding" where
  "key_finding r =
     (if r_base r = 0 then WARNING_no_base_prices (r_name r)
      else OK_base_prices (r_name r) (r_base r))"

section \<open>comprehensive\_pricing\_investigation.py: the JSON path\<close>

text \<open>
  What \<open>json.loads\<close> returns for the field values of a flat object: \<open>None\<close>, a \<open>bool\<close>,
  an \<open>int\<close>, a \<open>float\<close> or a \<open>str\<close>. A float is the real number it stands for (the
  values \<open>nan\<close> and \<open>inf\<close>, and nested values, are left out). \<open>py_eq\<close> is \<open>==\<close> on these
  values: numbers are compared by value, with \<open>True == 1\<close> and \<open>False == 0\<close>, and a
  string is equal to a string only.
\<close>

datatype json = JNull | JBool bool | JInt int | JFloat real | JStr string

fun py_eq :: "json \<Rightarrow> json \<Rightarrow> bool" where
  "py_eq JNull JNull = True"
| "py_eq (JStr a) (JStr b) = (a = b)"
| "py_eq (JInt a) (JInt b) = (a = b)"
| "py_eq (JBool a) (JBool b) = (a = b)"
| "py_eq (JFloat a) (JFloat b) = (a = b)"
| "py_eq (JBool a) (JInt b) = ((if a then 1 else 0) = b)"
| "py_eq (JInt a) (JBool b) = (a = (if b then 1 else 0))"
| "py_eq (JFloat a) (JInt b) = (a = of_int b)"
| "py_eq (JInt a) (JFloat b) = (of_int a = b)"
| "py_eq (JFloat a) (JBool b) = (a = (if b then 1 else 0))"
| "py_eq (JBool a) (JFloat b) = ((if a then 1 else 0) = b)"
| "py_eq _ _ = False"

text \<open>\<open>record.get(k, d)\<close>\<close>

definition json_get :: "json dict \<Rightarrow> string \<Rightarrow> json \<Rightarrow> json" where
  "json_get r k d = (case map_of r k of Some v \<Rightarrow> v | None \<Rightarrow> d)"

record jstate =
  base_prices :: "json dict list"
  surcharges :: "json dict list"
  base_count :: nat
  surcharge_count :: nat

text \<open>
  The body of the loop over \<open>price_data\<close>, lines 59 to 82. The counter
  \<open>var_cond_patterns\<close>, which is only printed, is left out.
\<close>

definition price_record_step :: "jstate \<Rightarrow> json dict \<Rightarrow> jstate" where
  "price_record_step st r =
     (let level = json_get r ''level'' (JStr []);
          var_cond = json_get r ''var_cond'' (JStr []);
          article_nr = json_get r ''article_nr'' (JStr []);
          price = json_get r ''price'' (JInt 0);
          sample = [(''article_nr'', article_nr), (''var_cond'', var_cond), (''price'', price)]
      in if py_eq level (JStr ''B'') then
           st\<lparr>base_count := base_count st + 1,
              base_prices := (if base_count st + 1 \<le> 10 then base_prices st @ [sample]
                              else base_prices st)\<rparr>
         else if py_eq level (JStr ''X'') then
           st\<lparr>surcharge_count := surcharge_count st + 1,
              surcharges := (if surcharge_count st + 1 \<le> 10 then surcharges st @ [sample]
                             else surcharges st)\<rparr>
         else st)"

definition price_table :: "json dict list \<Rightarrow> jstate" where
  "price_table price_data =
     foldl price_record_step
       \<lparr>base_prices = [], surcharges = [], base_count = 0, surcharge_count = 0\<rparr> price_data"

section \<open>Tokens and the record assembler\<close>

text \<open>
  The loops above decide by an \<open>if\<close> chain what a line is. The chain, read as a
  classification of the line: a record boundary, a field assignment, or a line that
  changes nothing.
\<close>

datatype token = Boundary | Field string string | Ignorable

text \<open>The chain of \<open>parse_price_records\<close>, once the marker line has been seen.\<close>

definition price_token :: "string \<Rightarrow> token" where
  "price_token line =
     (if contains marker line then Ignorable
      else if startswith line ''Record '' then Boundary
      else if contains '':'' line \<and> \<not> startswith (strip line) ''Table:'' then
        (case split1 CHR '':'' line of
           [p0, p1] \<Rightarrow> Field (strip p0) (strip_chars [CHR 0x27] (strip p1))
         | _ \<Rightarrow> Ignorable)
      else Ignorable)"

text \<open>The lines after the first line that contains the marker.\<close>

definition after_marker :: "string list \<Rightarrow> string list" where
  "after_marker ls = drop 1 (dropWhile (\<lambda>l. \<not> contains marker l) ls)"

definition price_tokens :: "string \<Rightarrow> token list" where
  "price_tokens output = map price_token (after_marker (split_on CHR 0x0A output))"

text \<open>The chain of \<open>extract_articles\<close>.\<close>

definition article_token :: "string \<Rightarrow> token" where
  "article_token line =
     (if startswith line ''Record'' then Boundary
      else if contains ''article_nr:'' line then
        (case re_search True (''article_nr: '' @ [quote]) line of
           Some v \<Rightarrow> Field ''article_nr'' v
         | None \<Rightarrow> Ignorable)
      else if contains ''series:'' line then
        (case re_search True (''series: '' @ [quote]) line of
           Some v \<Rightarrow> Field ''series'' v
         | None \<Rightarrow> Ignorable)
      else Ignorable)"

definition article_tokens :: "string \<Rightarrow> token list" where
  "article_tokens output = map article_token (split_on CHR 0x0A output)"

text \<open>
  The record assembler in the words of the specification: one accumulator; a boundary
  emits a non-empty accumulator and starts an empty one, a field is written into the
  accumulator, the last write winning, and the end of the input emits a non-empty
  accumulator.
\<close>

fun assemble_step ::
  "string dict list \<times> string dict \<Rightarrow> token \<Rightarrow> string dict list \<times> string dict" where
  "assemble_step (ps, cur) Boundary = (flush ps cur, [])"
| "assemble_step (ps, cur) (Field k v) = (ps, AList.update k v cur)"
| "assemble_step (ps, cur) Ignorable = (ps, cur)"

definition assemble :: "token list \<Rightarrow> string dict list" where
  "assemble ts = (case foldl assemble_step ([], []) ts of (ps, cur) \<Rightarrow> flush ps cur)"

text \<open>A field comes before the next boundary and before the end of the tokens.\<close>

fun has_body :: "token list \<Rightarrow> bool" where
  "has_body [] = False"
| "has_body (Boundary # ts) = False"
| "has_body (Field k v # ts) = True"
| "has_body (Ignorable # ts) = has_body ts"

text \<open>
  The number of boundaries that are followed by at least one field before the next
  boundary or the end of the tokens.
\<close>

fun boundaries_with_body :: "token list \<Rightarrow> nat" where
  "boundaries_with_body [] = 0"
| "boundaries_with_body (Boundary # ts) =
     (if has_body ts then 1 else 0) + boundaries_with_body ts"
| "boundaries_with_body (Field k v # ts) = boundaries_with_body ts"
| "boundaries_with_body (Ignorable # ts) = boundaries_with_body ts"

text \<open>The text strictly between the first and the last quote of a line.\<close>

definition between_quotes :: "string \<Rightarrow> string" where
  "between_quotes line =
     rev (drop 1 (dropWhile (\<lambda>c. c \<noteq> quote)
       (rev (drop 1 (dropWhile (\<lambda>c. c \<noteq> quote) line)))))"

text \<open>
  The lines of \<open>extract_price_data\<close>: its inner loop can write several fields for one
  line, so a line is a list of tokens.
\<close>

definition field_tokens :: "string \<Rightarrow> string \<Rightarrow> token list" where
  "field_tokens line field =
     (if contains (field @ '':'') line then
        (case re_search False (field @ '': '' @ [quote]) line of
           Some v \<Rightarrow> [Field field v]
         | None \<Rightarrow> [])
      else [])"

definition price_data_token :: "string \<Rightarrow> token list" where
  "price_data_token line =
     (if startswith line ''Record'' then [Boundary]
      else concat (map (field_tokens line) price_fields))"

definition price_data_tokens :: "string \<Rightarrow> token list" where
  "price_data_tokens output = concat (map price_data_token (split_on CHR 0x0A output))"

text \<open>A series for which only the property classes were read.\<close>

definition series_with_classes :: "string list \<Rightarrow> series_data" where
  "series_with_classes cs = \<lparr>path = [], property_classes = cs, articles = [], mappings = []\<rparr>"

section \<open>Records of a token list\<close>

text \<open>
  The stretches of a token list between its boundaries, the record that the fields of one
  stretch build, and the value that the last field of a given name in a stretch carries.
\<close>

fun segments :: "token list \<Rightarrow> token list list" where
  "segments [] = [[]]"
| "segments (Boundary # ts) = [] # segments ts"
| "segments (t # ts) =
     (case segments ts of
        [] \<Rightarrow> [[t]]
      | s # ss \<Rightarrow> (t # s) # ss)"

fun field_write :: "string dict \<Rightarrow> token \<Rightarrow> string dict" where
  "field_write cur (Field k v) = AList.update k v cur"
| "field_write cur t = cur"

definition record_of :: "token list \<Rightarrow> string dict" where
  "record_of seg = foldl field_write [] seg"

fun last_field :: "token list \<Rightarrow> string \<Rightarrow> string option" where
  "last_field [] k = None"
| "last_field (t # ts) k =
     (case last_field ts k of
        Some v \<Rightarrow> Some v
      | None \<Rightarrow> (case t of Field k' v \<Rightarrow> (if k' = k then Some v else None) | _ \<Rightarrow> None))"

section \<open>The two dumps of a row\<close>







section \<open>Strings and lines: auxiliary facts\<close>

lemma startswith_iff: "startswith s p \<longleftrightarrow> (\<exists>r. s = p @ r)"
  by (induction s p rule: startswith.induct) auto

lemma contains_iff: "contains p s \<longleftrightarrow> (\<exists>a b. s = a @ p @ b)"
proof (induction s)
  case Nil
  then show ?case by auto
next
  case (Cons c cs)
  show ?case
  proof
    assume "contains p (c # cs)"
    then consider "startswith (c # cs) p" | "contains p cs" by auto
    then show "\<exists>a b. c # cs = a @ p @ b"
    proof cases
      case 1
      then obtain r where "c # cs = p @ r" by (auto simp: startswith_iff)
      then have "c # cs = [] @ p @ r" by simp
      then show ?thesis by blast
    next
      case 2
      then obtain a b where "cs = a @ p @ b" using Cons.IH by auto
      then have "c # cs = (c # a) @ p @ b" by simp
      then show ?thesis by blast
    qed
  next
    assume "\<exists>a b. c # cs = a @ p @ b"
    then obtain a b where ab: "c # cs = a @ p @ b" by auto
    show "contains p (c # cs)"
    proof (cases a)
      case Nil
      then have "startswith (c # cs) p" using ab by (auto simp: startswith_iff)
      then show ?thesis by simp
    next
      case (Cons x xs)
      then have "cs = xs @ p @ b" using ab by simp
      then show ?thesis using Cons.IH by auto
    qed
  qed
qed

lemma split_on_nonempty: "split_on c s \<noteq> []"
  by (induction s) (auto split: list.splits)

lemma split_on_hd_prefix: "split_on c s = h # t \<Longrightarrow> \<exists>b. s = h @ b"
  by (induction s arbitrary: h t) (auto split: if_splits list.splits)

lemma split_on_line_sub: "l \<in> set (split_on c s) \<Longrightarrow> \<exists>a b. s = a @ l @ b"
proof (induction s arbitrary: l)
  case Nil
  then show ?case by simp
next
  case (Cons x xs)
  obtain h t where ht: "split_on c xs = h # t"
    using split_on_nonempty by (cases "split_on c xs") auto
  from Cons.prems ht consider "l = []" | "l = x # h" | "l \<in> set (split_on c xs)"
    by (auto split: if_splits)
  then show ?case
  proof cases
    case 1
    then show ?thesis by auto
  next
    case 2
    obtain b where "xs = h @ b" using split_on_hd_prefix[OF ht] by auto
    then have "x # xs = [] @ l @ b" using 2 by simp
    then show ?thesis by blast
  next
    case 3
    then obtain a b where "xs = a @ l @ b" using Cons.IH by blast
    then have "x # xs = (x # a) @ l @ b" by simp
    then show ?thesis by blast
  qed
qed

lemma contains_line: "l \<in> set (split_on c s) \<Longrightarrow> contains p l \<Longrightarrow> contains p s"
proof -
  assume "l \<in> set (split_on c s)" "contains p l"
  then obtain a b a' b' where "s = a @ l @ b" "l = a' @ p @ b'"
    using split_on_line_sub contains_iff by metis
  then have "s = (a @ a') @ p @ (b' @ b)" by simp
  then show ?thesis unfolding contains_iff by blast
qed

lemma split_on_append: "split_on c (a @ c # b) = split_on c a @ split_on c b"
  by (induction a) (auto split: list.splits simp: split_on_nonempty)

lemma price_line_token:
  "in_records st \<Longrightarrow>
   price_line st line =
     Inr (case assemble_step (prices st, current_record st) (price_token line) of
            (ps, cur) \<Rightarrow> st\<lparr>prices := ps, current_record := cur\<rparr>)"
  by (auto simp: price_line_def price_token_def split1_def py_index_def Let_def)

lemma price_loop_tokens:
  "in_records st \<Longrightarrow>
   price_loop st ls =
     Inr (case foldl assemble_step (prices st, current_record st) (map price_token ls) of
            (ps, cur) \<Rightarrow> st\<lparr>prices := ps, current_record := cur\<rparr>)"
proof (induction ls arbitrary: st)
  case Nil
  then show ?case by simp
next
  case (Cons l ls)
  obtain ps cur where pc: "assemble_step (prices st, current_record st) (price_token l) = (ps, cur)"
    by (cases "assemble_step (prices st, current_record st) (price_token l)") auto
  let ?st' = "st\<lparr>prices := ps, current_record := cur\<rparr>"
  have "price_line st l = Inr ?st'" using price_line_token[OF Cons.prems, of l] pc by simp
  moreover have "in_records ?st'" using Cons.prems by simp
  ultimately show ?case using Cons.IH[of ?st'] pc by simp
qed

lemma price_line_before:
  "\<not> in_records st \<Longrightarrow> \<not> contains marker line \<Longrightarrow> price_line st line = Inr st"
  by (simp add: price_line_def)

lemma price_line_marker:
  "contains marker line \<Longrightarrow> price_line st line = Inr (st\<lparr>in_records := True\<rparr>)"
  by (simp add: price_line_def)

lemma price_loop_before:
  "\<not> in_records st \<Longrightarrow>
   price_loop st ls =
     (if \<exists>l\<in>set ls. contains marker l
      then price_loop (st\<lparr>in_records := True\<rparr>) (after_marker ls)
      else Inr st)"
  by (induction ls) (auto simp: price_line_before price_line_marker after_marker_def)

lemma after_marker_none: "\<forall>l\<in>set ls. \<not> contains marker l \<Longrightarrow> after_marker ls = []"
  by (induction ls) (auto simp: after_marker_def)

lemma parse_price_records_assemble:
  "parse_price_records output = Inr (assemble (price_tokens output))"
proof (cases "\<exists>l\<in>set (split_on CHR 0x0A output). contains marker l")
  case True
  then show ?thesis
    by (simp add: parse_price_records_def price_loop_before price_loop_tokens assemble_def
        price_tokens_def split: prod.splits)
next
  case False
  then have "after_marker (split_on CHR 0x0A output) = []" by (simp add: after_marker_none)
  with False show ?thesis
    by (simp add: parse_price_records_def price_loop_before assemble_def price_tokens_def flush_def)
qed

lemma price_loop_skip:
  "\<not> in_records st \<Longrightarrow> \<forall>l\<in>set a. \<not> contains marker l \<Longrightarrow>
   price_loop st (a @ b) = price_loop st b"
  by (induction a) (auto simp: price_line_before)

section \<open>The marker of the price table\<close>

text \<open>
  Claim C10. In \<open>parse_price_records\<close> no line contributes to the result before a line
  with the marker \<open>=== Records from ocd_price\<close> has been seen: an input without the
  marker gives the empty list, and the lines before the first marker line are ignored,
  whatever they are.
\<close>

theorem parse_price_records_needs_marker:
  "(\<not> contains marker output \<longrightarrow> parse_price_records output = Inr []) \<and>
   (\<not> contains marker pre \<longrightarrow>
      parse_price_records (pre @ CHR 0x0A # rest) = parse_price_records rest)"
proof (intro conjI impI)
  assume "\<not> contains marker output"
  then have "\<forall>l\<in>set (split_on CHR 0x0A output). \<not> contains marker l"
    using contains_line by blast
  then show "parse_price_records output = Inr []"
    by (simp add: parse_price_records_def price_loop_before flush_def)
next
  assume "\<not> contains marker pre"
  then have "\<forall>l\<in>set (split_on CHR 0x0A pre). \<not> contains marker l"
    using contains_line by blast
  then show "parse_price_records (pre @ CHR 0x0A # rest) = parse_price_records rest"
    by (simp add: parse_price_records_def split_on_append price_loop_skip)
qed

theorem parse_price_records_needs_marker_witness:
  "\<not> contains marker (''Record 1'' @ [CHR 0x0A] @ ''price_level: B'') \<and>
   parse_price_records (''Record 1'' @ [CHR 0x0A] @ ''price_level: B'') = Inr [] \<and>
   \<not> contains marker ''price_level: X'' \<and>
   parse_price_records (''price_level: X'' @ CHR 0x0A # marker @ [CHR 0x0A] @ ''price_level: B'')
     = Inr [[(''price_level'', ''B'')]]"
  using parse_price_records_needs_marker [of "''Record 1'' @ [CHR 0x0A] @ ''price_level: B''"
      "''price_level: X''" "marker @ [CHR 0x0A] @ ''price_level: B''"]
  by (simp add: marker_def parse_price_records_def price_line_def split1_def py_index_def
      strip_def strip_chars_def whitespace_def flush_def)

lemma field_step_tokens:
  "foldl assemble_step (ps, cur) (field_tokens line f) = (ps, field_step line cur f)"
  by (simp add: field_tokens_def field_step_def split: option.splits)

lemma fields_tokens:
  "foldl assemble_step (ps, cur) (concat (map (field_tokens line) fs))
     = (ps, foldl (field_step line) cur fs)"
  by (induction fs arbitrary: cur) (simp_all add: field_step_tokens)

lemma price_data_line_tokens:
  "price_data_line st line = foldl assemble_step st (price_data_token line)"
  by (cases st) (simp add: price_data_line_def price_data_token_def fields_tokens)

lemma price_data_loop_tokens:
  "foldl price_data_line st ls = foldl assemble_step st (concat (map price_data_token ls))"
  by (induction ls arbitrary: st) (simp_all add: price_data_line_tokens)

lemma extract_price_data_assemble:
  "extract_price_data output = assemble (price_data_tokens output)"
  by (simp add: extract_price_data_def assemble_def price_data_tokens_def price_data_loop_tokens)

lemma article_line_token:
  "article_line st line = assemble_step st (article_token line)"
  by (cases st) (simp add: article_line_def article_token_def split: option.splits)

lemma article_loop_tokens:
  "foldl article_line st ls = foldl assemble_step st (map article_token ls)"
  by (induction ls arbitrary: st) (simp_all add: article_line_token)

lemma extract_articles_assemble:
  "extract_articles output = assemble (article_tokens output)"
  by (simp add: extract_articles_def assemble_def article_tokens_def article_loop_tokens)

text \<open>The definitions a concrete input is evaluated with.\<close>

lemmas eval_defs = marker_def parse_price_records_def price_line_def split1_def py_index_def
      strip_def strip_chars_def whitespace_def flush_def quote_def

section \<open>Totality of the tokenizer and the assembler\<close>

text \<open>
  Claim C8. The text tokenizer and the record assembler are total: no line makes the loop
  body of \<open>parse_price_records\<close> raise (its two index reads are in range), so every
  input gives a list of records; every line is a boundary, a field or ignorable, and the
  result of \<open>parse_price_records\<close> and of \<open>extract_price_data\<close> is the assembler run on
  the tokens of the lines. The empty input gives the empty list.
\<close>

theorem tokenizer_assembler_total:
  "(\<forall>e. price_line st line \<noteq> Inl e) \<and>
   (\<forall>e. parse_price_records output \<noteq> Inl e) \<and>
   parse_price_records output = Inr (assemble (price_tokens output)) \<and>
   extract_price_data output = assemble (price_data_tokens output) \<and>
   parse_price_records [] = Inr [] \<and> extract_price_data [] = []"
proof -
  have "price_line st line \<noteq> Inl e" for e
    by (auto simp: price_line_def split1_def py_index_def Let_def)
  moreover have "parse_price_records [] = Inr []"
    by (simp add: parse_price_records_def price_line_def marker_def flush_def)
  moreover have "extract_price_data [] = []"
    by (simp add: extract_price_data_def price_data_line_def price_fields_def field_step_def
        flush_def)
  ultimately show ?thesis
    by (simp add: parse_price_records_assemble extract_price_data_assemble)
qed

theorem tokenizer_assembler_total_witness:
  "parse_price_records (marker @ [CHR 0x0A] @ ''Record 1'' @ [CHR 0x0A] @ ''price_level: B'')
     = Inr (assemble (price_tokens
         (marker @ [CHR 0x0A] @ ''Record 1'' @ [CHR 0x0A] @ ''price_level: B''))) \<and>
   parse_price_records (marker @ [CHR 0x0A] @ ''Record 1'' @ [CHR 0x0A] @ ''price_level: B'')
     = Inr [[(''price_level'', ''B'')]] \<and>
   price_line \<lparr>prices = [], current_record = [], in_records = True\<rparr> ''a:b:c''
     = Inr \<lparr>prices = [], current_record = [(''a'', ''b:c'')], in_records = True\<rparr>"
  using tokenizer_assembler_total [of "\<lparr>prices = [], current_record = [], in_records = True\<rparr>"
      "''a:b:c''" "marker @ [CHR 0x0A] @ ''Record 1'' @ [CHR 0x0A] @ ''price_level: B''"]
  by (simp add: eval_defs)

section \<open>The price classifier\<close>

text \<open>
  Claim C2. Every price record is in exactly one of the three buckets Base
  (\<open>price_level\<close> is \<open>B\<close>), Surcharge (\<open>price_level\<close> is \<open>X\<close>) and Other (anything else, a
  missing \<open>price_level\<close> included), and for every parsed price stream the sizes of the
  three buckets add up to the number of records.
\<close>

theorem price_partition:
  "(p \<in> set ps \<longrightarrow>
      (p \<in> set (base_of ps) \<and> p \<notin> set (surcharges_of ps) \<and> p \<notin> set (corrupt_of ps)) \<or>
      (p \<notin> set (base_of ps) \<and> p \<in> set (surcharges_of ps) \<and> p \<notin> set (corrupt_of ps)) \<or>
      (p \<notin> set (base_of ps) \<and> p \<notin> set (surcharges_of ps) \<and> p \<in> set (corrupt_of ps))) \<and>
   length (base_of ps) + length (surcharges_of ps) + length (corrupt_of ps) = length ps \<and>
   (\<exists>r. analyze_manufacturer mname output = Inr r \<and>
        r_base r + r_surcharges r + r_corrupt r = r_total r)"
proof -
  have len: "length (base_of qs) + length (surcharges_of qs) + length (corrupt_of qs) = length qs"
    for qs
    by (induction qs) (auto simp: base_of_def surcharges_of_def corrupt_of_def)
  have "\<exists>r. analyze_manufacturer mname output = Inr r \<and>
        r_base r + r_surcharges r + r_corrupt r = r_total r"
    by (simp add: analyze_manufacturer_def parse_price_records_assemble len)
  then show ?thesis using len
    by (auto simp: base_of_def surcharges_of_def corrupt_of_def)
qed

theorem price_partition_witness:
  "[(''price_level'', ''Q'')] \<in> set [[(''price_level'', ''B'')], [(''price_level'', ''Q'')], []] \<and>
   [(''price_level'', ''Q'')] \<in>
     set (corrupt_of [[(''price_level'', ''B'')], [(''price_level'', ''Q'')], []]) \<and>
   length (base_of [[(''price_level'', ''B'')], [(''price_level'', ''Q'')], []]) = 1 \<and>
   length (surcharges_of [[(''price_level'', ''B'')], [(''price_level'', ''Q'')], []]) = 0 \<and>
   length (corrupt_of [[(''price_level'', ''B'')], [(''price_level'', ''Q'')], []]) = 2"
  using price_partition [of "[(''price_level'', ''Q'')]"
      "[[(''price_level'', ''B'')], [(''price_level'', ''Q'')], []]" "''Framery''" "[]"]
  by (simp add: base_of_def surcharges_of_def corrupt_of_def)

text \<open>
  Claim C7. When no parsed record has \<open>price_level\<close> equal to \<open>B\<close>, the price classifier
  still returns a result: its Base list is empty, its Base count is 0, and the condition
  is reported as the warning finding, not as an error.
\<close>

theorem no_base_prices_reported:
  "parse_price_records output = Inr ps \<Longrightarrow>
   \<forall>p\<in>set ps. map_of p ''price_level'' \<noteq> Some ''B'' \<Longrightarrow>
   \<exists>r. analyze_manufacturer mname output = Inr r \<and> r_base_prices r = [] \<and> r_base r = 0 \<and>
       r_total r = length ps \<and> key_finding r = WARNING_no_base_prices mname"
  by (simp add: analyze_manufacturer_def key_finding_def base_of_def filter_empty_conv)

theorem no_base_prices_reported_witness:
  "parse_price_records
     (marker @ [CHR 0x0A] @ ''Record 1'' @ [CHR 0x0A] @ ''price_level: '' @ [quote] @ ''Q'' @ [quote])
     = Inr [[(''price_level'', ''Q'')]] \<and>
   map_of [(''price_level'', ''Q'')] ''price_level'' \<noteq> Some ''B'' \<and>
   (\<exists>r. analyze_manufacturer ''Framery ONE''
          (marker @ [CHR 0x0A] @ ''Record 1'' @ [CHR 0x0A] @ ''price_level: '' @ [quote] @ ''Q''
             @ [quote]) = Inr r \<and>
        r_base_prices r = [] \<and> r_base r = 0 \<and> r_total r = 1 \<and>
        key_finding r = WARNING_no_base_prices ''Framery ONE'')"
proof -
  have h1: "parse_price_records
     (marker @ [CHR 0x0A] @ ''Record 1'' @ [CHR 0x0A] @ ''price_level: '' @ [quote] @ ''Q'' @ [quote])
     = Inr [[(''price_level'', ''Q'')]]"
    by (simp add: eval_defs)
  have h2: "\<forall>p\<in>set [[(''price_level'', ''Q'')]]. map_of p ''price_level'' \<noteq> Some ''B''"
    by simp
  show ?thesis using h1 h2 no_base_prices_reported [OF h1 h2, of "''Framery ONE''"] by simp
qed

section \<open>The record assembler: auxiliary facts\<close>

lemma update_nonempty: "AList.update k v al \<noteq> []"
  by (cases al) auto

lemma assemble_count_gen:
  "length (case foldl assemble_step (ps, cur) ts of (a, b) \<Rightarrow> flush a b)
     = length ps + boundaries_with_body ts + (if cur \<noteq> [] \<or> has_body ts then 1 else 0)"
proof (induction ts arbitrary: ps cur)
  case Nil
  then show ?case by (simp add: flush_def)
next
  case (Cons t ts)
  then show ?case by (cases t) (auto simp: flush_def update_nonempty)
qed

lemma assemble_count:
  "length (assemble ts) = boundaries_with_body ts + (if has_body ts then 1 else 0)"
  using assemble_count_gen [of "[]" "[]" ts] by (simp add: assemble_def)

lemma assemble_nonempty_gen:
  "[] \<notin> set ps \<Longrightarrow>
   [] \<notin> set (flush (fst (foldl assemble_step (ps, cur) ts))
                      (snd (foldl assemble_step (ps, cur) ts)))"
proof (induction ts arbitrary: ps cur)
  case Nil
  then show ?case by (simp add: flush_def)
next
  case (Cons t ts)
  show ?case
  proof (cases t)
    case Boundary
    have "[] \<notin> set (flush ps cur)" using Cons.prems by (simp add: flush_def)
    then show ?thesis using Cons.IH [of "flush ps cur" "[]"] Boundary by simp
  next
    case (Field k v)
    then show ?thesis using Cons.IH [OF Cons.prems] by simp
  next
    case Ignorable
    then show ?thesis using Cons.IH [OF Cons.prems] by simp
  qed
qed

lemma assemble_nonempty: "[] \<notin> set (assemble ts)"
  using assemble_nonempty_gen [of "[]" "[]" ts] by (simp add: assemble_def case_prod_unfold)

lemma assemble_boundary_twice:
  "assemble (ts @ Boundary # Boundary # ts') = assemble (ts @ Boundary # ts')"
  by (cases "foldl assemble_step ([], []) ts") (simp add: assemble_def flush_def)

lemma assemble_final:
  "\<exists>rs r. assemble (ts @ [Field k v]) = rs @ [r] \<and> map_of r k = Some v"
  by (cases "foldl assemble_step ([], []) ts") (simp add: assemble_def flush_def update_nonempty update_conv')

lemmas token_defs = price_tokens_def price_token_def after_marker_def article_tokens_def
  article_token_def match_here_def

section \<open>Records and boundaries\<close>

text \<open>What the two chains take for a boundary and for a field line.\<close>

lemma contains_colon: "contains '':'' l = (CHR '':'' \<in> set l)"
  by (induction l) (auto simp: contains_def)

lemma price_token_boundary:
  "(price_token l = Boundary) = (\<not> contains marker l \<and> startswith l ''Record '')"
  by (auto simp: price_token_def split1_def contains_colon)

lemma price_token_field:
  "(price_token l = Field k v) =
     (\<not> contains marker l \<and> \<not> startswith l ''Record '' \<and> contains '':'' l \<and>
      \<not> startswith (strip l) ''Table:'' \<and>
      k = strip (takeWhile (\<lambda>c. c \<noteq> CHR '':'') l) \<and>
      v = strip_chars [CHR 0x27] (strip (tl (dropWhile (\<lambda>c. c \<noteq> CHR '':'') l))))"
  by (auto simp: price_token_def split1_def contains_colon)

lemma article_token_boundary: "(article_token l = Boundary) = startswith l ''Record''"
  by (auto simp: article_token_def split: option.splits)

lemma article_token_field:
  "(article_token l = Field k v) =
     (\<not> startswith l ''Record'' \<and>
      (k = ''article_nr'' \<and> contains ''article_nr:'' l \<and>
         re_search True (''article_nr: '' @ [quote]) l = Some v \<or>
       k = ''series'' \<and> \<not> contains ''article_nr:'' l \<and> contains ''series:'' l \<and>
         re_search True (''series: '' @ [quote]) l = Some v))"
  by (auto simp: article_token_def split: option.splits)

text \<open>
  Claim C1, as the specification states it: for every text input, the assembler emits
  exactly one record per boundary that is followed by at least one field line before the
  next boundary or the end of the input. Three inputs on which the loops do otherwise.
  The loops emit the accumulator whenever it is not empty, whether or not a boundary
  opened it, so field lines before the first boundary make a record too: one record
  comes out of an input that has no boundary at all. \<open>parse_price_records\<close> reads no line
  before the line of the marker: on the scenario of section 8 of the specification, two
  boundaries each followed by four field lines and no marker line, it emits no record.
  \<open>extract_articles\<close> takes for a field line only a line of \<open>article_nr\<close> or \<open>series\<close> with
  a quoted value that is not empty: on two boundaries each followed by the field line of
  another name it emits no record.
\<close>

theorem record_without_boundary:
  "parse_price_records (marker @ [CHR 0x0A] @ ''price_level: B'')
     = Inr [[(''price_level'', ''B'')]] \<and>
   boundaries_with_body (price_tokens (marker @ [CHR 0x0A] @ ''price_level: B'')) = 0 \<and>
   extract_articles (''article_nr: '' @ [quote] @ ''A1'' @ [quote])
     = [[(''article_nr'', ''A1'')]] \<and>
   boundaries_with_body (article_tokens (''article_nr: '' @ [quote] @ ''A1'' @ [quote])) = 0 \<and>
   parse_price_records
      (''Record 1'' @ [CHR 0x0A] @ ''article_nr: '' @ [quote] @ ''X1'' @ [quote]
       @ [CHR 0x0A] @ ''price_level: '' @ [quote] @ ''B'' @ [quote] @ [CHR 0x0A]
       @ ''price: '' @ [quote] @ ''100'' @ [quote] @ [CHR 0x0A] @ ''currency: ''
       @ [quote] @ ''EUR'' @ [quote] @ [CHR 0x0A] @ ''Record 2'' @ [CHR 0x0A]
       @ ''article_nr: '' @ [quote] @ ''X2'' @ [quote] @ [CHR 0x0A] @ ''price_level: ''
       @ [quote] @ ''X'' @ [quote] @ [CHR 0x0A] @ ''price: '' @ [quote] @ ''10''
       @ [quote] @ [CHR 0x0A] @ ''currency: '' @ [quote] @ ''EUR'' @ [quote]) = Inr [] \<and>
   boundaries_with_body (map price_token (split_on CHR 0x0A
      (''Record 1'' @ [CHR 0x0A] @ ''article_nr: '' @ [quote] @ ''X1'' @ [quote]
       @ [CHR 0x0A] @ ''price_level: '' @ [quote] @ ''B'' @ [quote] @ [CHR 0x0A]
       @ ''price: '' @ [quote] @ ''100'' @ [quote] @ [CHR 0x0A] @ ''currency: ''
       @ [quote] @ ''EUR'' @ [quote] @ [CHR 0x0A] @ ''Record 2'' @ [CHR 0x0A]
       @ ''article_nr: '' @ [quote] @ ''X2'' @ [quote] @ [CHR 0x0A] @ ''price_level: ''
       @ [quote] @ ''X'' @ [quote] @ [CHR 0x0A] @ ''price: '' @ [quote] @ ''10''
       @ [quote] @ [CHR 0x0A] @ ''currency: '' @ [quote] @ ''EUR'' @ [quote]))) = 2 \<and>
   extract_articles
      (''Record 1'' @ [CHR 0x0A] @ ''price_level: '' @ [quote] @ ''B'' @ [quote]
       @ [CHR 0x0A] @ ''Record 2'' @ [CHR 0x0A] @ ''price_level: '' @ [quote] @ ''X''
       @ [quote]) = [] \<and>
   boundaries_with_body (map price_token (split_on CHR 0x0A
      (''Record 1'' @ [CHR 0x0A] @ ''price_level: '' @ [quote] @ ''B'' @ [quote]
       @ [CHR 0x0A] @ ''Record 2'' @ [CHR 0x0A] @ ''price_level: '' @ [quote] @ ''X''
       @ [quote]))) = 2"
  by (simp add: eval_defs token_defs extract_articles_def article_line_def)

text \<open>
  Claim C1, amended. Let a line be read as the parser at hand reads it.
  \<open>parse_price_records\<close> reads only the lines after the first line that contains the
  marker \<open>=== Records from ocd_price\<close>; of these lines, a boundary is a line that starts
  with \<open>Record\<close> and a blank and does not contain the marker, and a field line is a line that
  is no boundary, does not contain the marker, contains a colon and does not start, white
  space apart, with \<open>Table:\<close>; its name is the text before the first colon and its value
  the text after it, stripped. \<open>extract_articles\<close> reads every line; a boundary is a line
  that starts with \<open>Record\<close>, and a field line is a line that is no boundary and either
  contains \<open>article_nr:\<close> and matches \<open>article_nr: '([^']+)'\<close>, or contains \<open>series:\<close> but
  not \<open>article_nr:\<close> and matches \<open>series: '([^']+)'\<close>. Every other line is ignorable. For
  every input, each of the two parsers emits, of the lines it reads, one record per
  boundary that is followed by at least one field line before the next boundary or the
  end of the input, and one more record when a field line comes before the first
  boundary. No emitted record is empty; a boundary right after a boundary adds no record;
  an accumulator that is not empty at the end of the input is emitted as the last record.
\<close>

theorem records_per_boundary:
  "(\<exists>rs. parse_price_records output = Inr rs \<and> [] \<notin> set rs \<and>
      length rs = boundaries_with_body (price_tokens output)
                    + (if has_body (price_tokens output) then 1 else 0)) \<and>
   [] \<notin> set (extract_articles output) \<and>
   length (extract_articles output) = boundaries_with_body (article_tokens output)
                    + (if has_body (article_tokens output) then 1 else 0) \<and>
   parse_price_records output = Inr (assemble (price_tokens output)) \<and>
   extract_articles output = assemble (article_tokens output) \<and>
   length (assemble ts) = boundaries_with_body ts + (if has_body ts then 1 else 0) \<and>
   assemble (ts @ Boundary # Boundary # ts') = assemble (ts @ Boundary # ts') \<and>
   (\<exists>rs r. assemble (ts @ [Field k v]) = rs @ [r] \<and> map_of r k = Some v) \<and>
   price_tokens output
     = map price_token
         (drop 1 (dropWhile (\<lambda>l. \<not> contains marker l) (split_on CHR 0x0A output))) \<and>
   (price_token l = Boundary) = (\<not> contains marker l \<and> startswith l ''Record '') \<and>
   (price_token l = Field key val) =
     (\<not> contains marker l \<and> \<not> startswith l ''Record '' \<and> contains '':'' l \<and>
      \<not> startswith (strip l) ''Table:'' \<and>
      key = strip (takeWhile (\<lambda>c. c \<noteq> CHR '':'') l) \<and>
      val = strip_chars [CHR 0x27] (strip (tl (dropWhile (\<lambda>c. c \<noteq> CHR '':'') l)))) \<and>
   article_tokens output = map article_token (split_on CHR 0x0A output) \<and>
   (article_token l = Boundary) = startswith l ''Record'' \<and>
   (article_token l = Field key val) =
     (\<not> startswith l ''Record'' \<and>
      (key = ''article_nr'' \<and> contains ''article_nr:'' l \<and>
         re_search True (''article_nr: '' @ [quote]) l = Some val \<or>
       key = ''series'' \<and> \<not> contains ''article_nr:'' l \<and> contains ''series:'' l \<and>
         re_search True (''series: '' @ [quote]) l = Some val))"
proof -
  have a: "(\<exists>rs. parse_price_records output = Inr rs \<and> [] \<notin> set rs \<and>
      length rs = boundaries_with_body (price_tokens output)
                    + (if has_body (price_tokens output) then 1 else 0)) \<and>
   [] \<notin> set (extract_articles output) \<and>
   length (extract_articles output) = boundaries_with_body (article_tokens output)
                    + (if has_body (article_tokens output) then 1 else 0) \<and>
   parse_price_records output = Inr (assemble (price_tokens output)) \<and>
   extract_articles output = assemble (article_tokens output) \<and>
   length (assemble ts) = boundaries_with_body ts + (if has_body ts then 1 else 0) \<and>
   assemble (ts @ Boundary # Boundary # ts') = assemble (ts @ Boundary # ts') \<and>
   (\<exists>rs r. assemble (ts @ [Field k v]) = rs @ [r] \<and> map_of r k = Some v)"
    using assemble_count assemble_nonempty assemble_boundary_twice assemble_final
    by (simp add: parse_price_records_assemble extract_articles_assemble)
  have b: "price_tokens output
     = map price_token
         (drop 1 (dropWhile (\<lambda>l. \<not> contains marker l) (split_on CHR 0x0A output)))"
    by (simp add: price_tokens_def after_marker_def)
  have c: "article_tokens output = map article_token (split_on CHR 0x0A output)"
    by (simp add: article_tokens_def)
  show ?thesis
    using a b c price_token_boundary [of l] price_token_field [of l key val]
      article_token_boundary [of l] article_token_field [of l key val]
    by blast
qed

theorem records_per_boundary_witness:
  "parse_price_records (marker @ [CHR 0x0A] @ ''Record 1'' @ [CHR 0x0A] @ ''Record 2''
      @ [CHR 0x0A] @ ''price_level: B'') = Inr [[(''price_level'', ''B'')]] \<and>
   price_tokens (marker @ [CHR 0x0A] @ ''Record 1'' @ [CHR 0x0A] @ ''Record 2''
      @ [CHR 0x0A] @ ''price_level: B'') = [Boundary, Boundary, Field ''price_level'' ''B''] \<and>
   length (assemble [Boundary, Boundary, Field ''price_level'' ''B'']) = 1 \<and>
   boundaries_with_body [Boundary, Boundary, Field ''price_level'' ''B''] = 1 \<and>
   \<not> has_body [Boundary, Boundary, Field ''price_level'' ''B''] \<and>
   price_token ''price_level: B'' = Field ''price_level'' ''B'' \<and>
   article_token ''price_level: B'' \<noteq> Field ''price_level'' ''B''"
  using records_per_boundary [of "marker @ [CHR 0x0A] @ ''Record 1'' @ [CHR 0x0A] @ ''Record 2''
      @ [CHR 0x0A] @ ''price_level: B''" "[Boundary, Boundary, Field ''price_level'' ''B'']"
      "[]" "''price_level''" "''B''" "''price_level: B''" "''price_level''" "''B''"]
  by (simp add: eval_defs token_defs)

section \<open>The sharing verdict\<close>

lemma sharing_verdict_cons:
  "sharing_verdict ((n, d) # rest) =
     Some (if \<forall>x\<in>set rest. set (property_classes (snd x)) = set (property_classes d)
           then Shared else SeriesSpecific)"
  by (simp add: sharing_verdict_def list_all_iff)

lemma all_equal_first:
  "(\<forall>x\<in>set rest. f x = f a) \<longleftrightarrow> (\<forall>x\<in>set (a # rest). \<forall>y\<in>set (a # rest). f x = f y)"
proof
  assume h: "\<forall>x\<in>set rest. f x = f a"
  then have h': "\<forall>x\<in>set (a # rest). f x = f a" by simp
  show "\<forall>x\<in>set (a # rest). \<forall>y\<in>set (a # rest). f x = f y"
  proof (intro ballI)
    fix x y
    assume "x \<in> set (a # rest)" and "y \<in> set (a # rest)"
    then have "f x = f a" and "f y = f a" using h' by blast+
    then show "f x = f y" by simp
  qed
next
  assume h: "\<forall>x\<in>set (a # rest). \<forall>y\<in>set (a # rest). f x = f y"
  show "\<forall>x\<in>set rest. f x = f a"
  proof
    fix x
    assume "x \<in> set rest"
    then have "x \<in> set (a # rest)" and "a \<in> set (a # rest)" by simp_all
    then show "f x = f a" using h by blast
  qed
qed

lemma sharing_verdict_shared_iff:
  "all_series_data \<noteq> [] \<Longrightarrow>
   sharing_verdict all_series_data = Some Shared \<longleftrightarrow>
     (\<forall>a\<in>set all_series_data. \<forall>b\<in>set all_series_data.
        set (property_classes (snd a)) = set (property_classes (snd b)))"
proof -
  assume "all_series_data \<noteq> []"
  then obtain n d rest where eq: "all_series_data = (n, d) # rest"
    by (cases all_series_data) auto
  have "sharing_verdict all_series_data = Some Shared \<longleftrightarrow>
        (\<forall>x\<in>set rest. set (property_classes (snd x)) = set (property_classes (snd (n, d))))"
    unfolding eq sharing_verdict_cons by simp
  also have "\<dots> \<longleftrightarrow> (\<forall>a\<in>set ((n, d) # rest). \<forall>b\<in>set ((n, d) # rest).
        set (property_classes (snd a)) = set (property_classes (snd b)))"
    by (rule all_equal_first [of rest "\<lambda>x. set (property_classes (snd x))" "(n, d)"])
  finally show ?thesis unfolding eq .
qed

lemma sharing_verdict_total:
  "all_series_data \<noteq> [] \<Longrightarrow>
   sharing_verdict all_series_data = Some Shared \<or>
   sharing_verdict all_series_data = Some SeriesSpecific"
proof -
  assume "all_series_data \<noteq> []"
  then obtain n d rest where eq: "all_series_data = (n, d) # rest"
    by (cases all_series_data) auto
  show ?thesis unfolding eq sharing_verdict_cons by simp
qed

lemma sharing_verdict_map:
  "sharing_verdict d =
     (case map (\<lambda>x. set (property_classes (snd x))) d of
        [] \<Rightarrow> None
      | s # ss \<Rightarrow> Some (if \<forall>t\<in>set ss. t = s then Shared else SeriesSpecific))"
proof (cases d)
  case Nil
  then show ?thesis by (simp add: sharing_verdict_def)
next
  case (Cons a rest)
  obtain n x where a: "a = (n, x)" by (cases a)
  show ?thesis unfolding Cons a sharing_verdict_cons by simp
qed

lemma sharing_verdict_sets_only:
  "map (\<lambda>x. set (property_classes (snd x))) d1 = map (\<lambda>x. set (property_classes (snd x))) d2
   \<Longrightarrow> sharing_verdict d1 = sharing_verdict d2"
  by (simp only: sharing_verdict_map)

text \<open>
  Claim C5. Given the property classes of one or more series (so of two or more), the
  verdict printed by \<open>main\<close> is "shared" exactly when all the class sets are equal as sets
  of strings, whatever the order of the lists, and "series-specific" otherwise. The verdict
  is computed from the class sets alone: the series identifiers, and with them the
  substring diagnostic \<open>contains_series_id\<close>, do not enter it.
\<close>

theorem sharing_verdict_is_set_equality:
  "(all_series_data \<noteq> [] \<longrightarrow>
      (sharing_verdict all_series_data = Some Shared \<longleftrightarrow>
         (\<forall>a\<in>set all_series_data. \<forall>b\<in>set all_series_data.
            set (property_classes (snd a)) = set (property_classes (snd b)))) \<and>
      (sharing_verdict all_series_data = Some SeriesSpecific \<longleftrightarrow>
         \<not> (\<forall>a\<in>set all_series_data. \<forall>b\<in>set all_series_data.
            set (property_classes (snd a)) = set (property_classes (snd b))))) \<and>
   (map (\<lambda>x. set (property_classes (snd x))) all_series_data
      = map (\<lambda>x. set (property_classes (snd x))) other_series_data \<longrightarrow>
      sharing_verdict all_series_data = sharing_verdict other_series_data)"
proof (intro conjI impI)
  assume ne: "all_series_data \<noteq> []"
  define Q where "Q \<longleftrightarrow> (\<forall>a\<in>set all_series_data. \<forall>b\<in>set all_series_data.
            set (property_classes (snd a)) = set (property_classes (snd b)))"
  define v where "v = sharing_verdict all_series_data"
  have i: "v = Some Shared \<longleftrightarrow> Q"
    unfolding Q_def v_def by (rule sharing_verdict_shared_iff [OF ne])
  have t: "v = Some Shared \<or> v = Some SeriesSpecific"
    unfolding v_def by (rule sharing_verdict_total [OF ne])
  have j: "v = Some SeriesSpecific \<longleftrightarrow> \<not> Q"
    using i t by auto
  show "sharing_verdict all_series_data = Some Shared \<longleftrightarrow>
         (\<forall>a\<in>set all_series_data. \<forall>b\<in>set all_series_data.
            set (property_classes (snd a)) = set (property_classes (snd b)))"
    using i unfolding Q_def v_def .
  show "sharing_verdict all_series_data = Some SeriesSpecific \<longleftrightarrow>
         \<not> (\<forall>a\<in>set all_series_data. \<forall>b\<in>set all_series_data.
            set (property_classes (snd a)) = set (property_classes (snd b)))"
    using j unfolding Q_def v_def .
next
  assume "map (\<lambda>x. set (property_classes (snd x))) all_series_data
      = map (\<lambda>x. set (property_classes (snd x))) other_series_data"
  then show "sharing_verdict all_series_data = sharing_verdict other_series_data"
    by (rule sharing_verdict_sets_only)
qed

theorem sharing_verdict_is_set_equality_witness:
  "sharing_verdict
     [(''frmr_one'', series_with_classes [''MG_GLOBAL'', ''MG_PROPERTIES'']),
      (''frmr_2q'', series_with_classes [''MG_PROPERTIES'', ''MG_GLOBAL''])] = Some Shared \<and>
   sharing_verdict
     [(''kr'', series_with_classes [''KR_A'', ''KR_B'']),
      (''wkm'', series_with_classes [''WKM_A'', ''WKM_B''])] = Some SeriesSpecific \<and>
   sharing_verdict
     [(''kr'', series_with_classes [''KR_A'', ''KR_B'']),
      (''wkm'', series_with_classes [''KR_B'', ''KR_A''])] = Some Shared \<and>
   contains_series_id ''KR'' [''KR_A'', ''KR_B''] \<and>
   \<not> contains_series_id ''WKM'' [''KR_B'', ''KR_A'']"
proof -
  let ?f = "\<lambda>x. set (property_classes (snd x))"
  let ?d1 = "[(''frmr_one'', series_with_classes [''MG_GLOBAL'', ''MG_PROPERTIES'']),
      (''frmr_2q'', series_with_classes [''MG_PROPERTIES'', ''MG_GLOBAL''])]"
  let ?d2 = "[(''kr'', series_with_classes [''KR_A'', ''KR_B'']),
      (''wkm'', series_with_classes [''WKM_A'', ''WKM_B''])]"
  let ?d3 = "[(''kr'', series_with_classes [''KR_A'', ''KR_B'']),
      (''wkm'', series_with_classes [''KR_B'', ''KR_A''])]"
  let ?d4 = "[(''frmr_one'', series_with_classes [''KR_A'', ''KR_B'']),
      (''frmr_2q'', series_with_classes [''KR_A'', ''KR_B''])]"
  have e1: "\<forall>a\<in>set ?d1. \<forall>b\<in>set ?d1. ?f a = ?f b"
    by (simp add: series_with_classes_def insert_commute)
  have s1: "sharing_verdict ?d1 = Some Shared"
    using sharing_verdict_is_set_equality [of ?d1 ?d1] e1 by blast
  have "''WKM_A'' \<in> set [''WKM_A'', ''WKM_B'']" and "''WKM_A'' \<notin> set [''KR_A'', ''KR_B'']"
    by simp_all
  then have "set [''KR_A'', ''KR_B''] \<noteq> set [''WKM_A'', ''WKM_B'']" by metis
  then have "?f (''kr'', series_with_classes [''KR_A'', ''KR_B''])
             \<noteq> ?f (''wkm'', series_with_classes [''WKM_A'', ''WKM_B''])"
    by (simp add: series_with_classes_def)
  moreover have "(''kr'', series_with_classes [''KR_A'', ''KR_B'']) \<in> set ?d2"
    and "(''wkm'', series_with_classes [''WKM_A'', ''WKM_B'']) \<in> set ?d2" by simp_all
  ultimately have e2: "\<not> (\<forall>a\<in>set ?d2. \<forall>b\<in>set ?d2. ?f a = ?f b)" by blast
  have ne2: "?d2 \<noteq> []" by simp
  have s2: "sharing_verdict ?d2 = Some SeriesSpecific"
    using sharing_verdict_is_set_equality [of ?d2 ?d2] e2 ne2 by blast
  have e4: "\<forall>a\<in>set ?d4. \<forall>b\<in>set ?d4. ?f a = ?f b"
    by (simp add: series_with_classes_def)
  have s4: "sharing_verdict ?d4 = Some Shared"
    using sharing_verdict_is_set_equality [of ?d4 ?d4] e4 by blast
  have m: "map ?f ?d3 = map ?f ?d4"
    by (simp add: series_with_classes_def insert_commute)
  have s3: "sharing_verdict ?d3 = Some Shared"
    using sharing_verdict_is_set_equality [of ?d3 ?d4] m s4 by simp
  have c: "contains_series_id ''KR'' [''KR_A'', ''KR_B''] \<and>
           \<not> contains_series_id ''WKM'' [''KR_B'', ''KR_A'']"
    by (simp add: contains_series_id_def)
  show ?thesis using s1 s2 s3 c by simp
qed

text \<open>
  Claim C9. The sharing decision for two series is symmetric, and it is "shared" when both
  series have the same class set, empty or not.
\<close>

theorem sharing_symmetric_reflexive:
  "sharing_verdict [(n1, a), (n2, b)] = sharing_verdict [(n2, b), (n1, a)] \<and>
   sharing_verdict [(n1, a), (n2, a)] = Some Shared \<and>
   (set (property_classes a) = set (property_classes b) \<longrightarrow>
      sharing_verdict [(n1, a), (n2, b)] = Some Shared)"
proof -
  have "(set (property_classes b) = set (property_classes a)) =
        (set (property_classes a) = set (property_classes b))" by (rule eq_commute)
  then show ?thesis by (simp add: sharing_verdict_cons)
qed

theorem sharing_symmetric_reflexive_witness:
  "set (property_classes (series_with_classes [''MG_GLOBAL'', ''MG_PROPERTIES'']))
     = set (property_classes (series_with_classes [''MG_PROPERTIES'', ''MG_GLOBAL''])) \<and>
   sharing_verdict
     [(''frmr_one'', series_with_classes [''MG_GLOBAL'', ''MG_PROPERTIES'']),
      (''frmr_2q'', series_with_classes [''MG_PROPERTIES'', ''MG_GLOBAL''])] = Some Shared \<and>
   sharing_verdict
     [(''frmr_2q'', series_with_classes [''MG_PROPERTIES'', ''MG_GLOBAL'']),
      (''frmr_one'', series_with_classes [''MG_GLOBAL'', ''MG_PROPERTIES''])] = Some Shared"
proof -
  have h: "set (property_classes (series_with_classes [''MG_GLOBAL'', ''MG_PROPERTIES'']))
     = set (property_classes (series_with_classes [''MG_PROPERTIES'', ''MG_GLOBAL'']))"
    by (simp add: series_with_classes_def insert_commute)
  note t = sharing_symmetric_reflexive [of "''frmr_one''"
        "series_with_classes [''MG_GLOBAL'', ''MG_PROPERTIES'']" "''frmr_2q''"
        "series_with_classes [''MG_PROPERTIES'', ''MG_GLOBAL'']"]
  have a: "sharing_verdict
     [(''frmr_one'', series_with_classes [''MG_GLOBAL'', ''MG_PROPERTIES'']),
      (''frmr_2q'', series_with_classes [''MG_PROPERTIES'', ''MG_GLOBAL''])] = Some Shared"
    using t [THEN conjunct2, THEN conjunct2] h by (rule mp)
  have b: "sharing_verdict
     [(''frmr_2q'', series_with_classes [''MG_PROPERTIES'', ''MG_GLOBAL'']),
      (''frmr_one'', series_with_classes [''MG_GLOBAL'', ''MG_PROPERTIES''])] = Some Shared"
    using t [THEN conjunct1] a by (rule subst)
  show ?thesis by (intro conjI h a b)
qed

section \<open>Quoted values\<close>

lemma takeWhile_until: "q \<notin> set v \<Longrightarrow> takeWhile (\<lambda>c. c \<noteq> q) (v @ q # r) = v"
  by (induction v) auto

lemma dropWhile_until: "q \<notin> set v \<Longrightarrow> dropWhile (\<lambda>c. c \<noteq> q) (v @ q # r) = q # r"
  by (induction v) auto

lemma re_search_here: "match_here ne pat s = Some v \<Longrightarrow> re_search ne pat s = Some v"
  by (cases s) simp_all

lemma re_search_skip:
  "match_here ne pat (c # cs) = None \<Longrightarrow> re_search ne pat (c # cs) = re_search ne pat cs"
  by simp

lemma match_here_at:
  "quote \<notin> set v \<Longrightarrow>
   match_here ne pat (pat @ v @ quote # post) = (if ne \<and> v = [] then None else Some v)"
proof -
  assume q: "quote \<notin> set v"
  have s: "startswith (pat @ v @ quote # post) pat" by (simp add: startswith_iff)
  have t: "takeWhile (\<lambda>c. c \<noteq> quote) (v @ quote # post) = v"
    using q by (rule takeWhile_until)
  show ?thesis by (simp add: match_here_def s t)
qed

lemma no_early_start:
  assumes "quote \<notin> set pre" "quote \<notin> set body" "pre \<noteq> []"
  shows "\<not> startswith (pre @ body @ quote # rest) (body @ [quote])"
proof
  assume "startswith (pre @ body @ quote # rest) (body @ [quote])"
  then obtain r where r: "pre @ body @ quote # rest = (body @ [quote]) @ r"
    by (auto simp: startswith_iff)
  have "takeWhile (\<lambda>c. c \<noteq> quote) ((pre @ body) @ quote # rest) = pre @ body"
    using assms by (intro takeWhile_until) auto
  moreover have "takeWhile (\<lambda>c. c \<noteq> quote) (body @ quote # r) = body"
    using assms(2) by (rule takeWhile_until)
  ultimately have "pre @ body = body" using r by simp
  then show False using assms(3) by simp
qed

lemma re_search_field:
  assumes "quote \<notin> set pre" "quote \<notin> set body" "quote \<notin> set v" "ne \<longrightarrow> v \<noteq> []"
  shows "re_search ne (body @ [quote]) (pre @ (body @ [quote]) @ v @ quote # post) = Some v"
  using assms(1)
proof (induction pre)
  case Nil
  have "match_here ne (body @ [quote]) ((body @ [quote]) @ v @ quote # post) = Some v"
    using match_here_at [OF assms(3), of ne "body @ [quote]" post] assms(4) by auto
  then show ?case using re_search_here by simp
next
  case (Cons c pre)
  have "\<not> startswith ((c # pre) @ body @ quote # (v @ quote # post)) (body @ [quote])"
    using no_early_start [of "c # pre" body] Cons.prems assms(2) by simp
  then have "match_here ne (body @ [quote]) (c # (pre @ (body @ [quote]) @ v @ quote # post)) = None"
    by (simp add: match_here_def)
  then show ?case using Cons by simp
qed

lemma re_search_nonempty: "re_search True pat s \<noteq> Some []"
  by (induction s) (auto simp: match_here_def Let_def split: option.splits if_splits)

lemma between_quotes_field:
  assumes "quote \<notin> set pre" "quote \<notin> set v" "quote \<notin> set post"
  shows "between_quotes (pre @ quote # v @ quote # post) = v"
proof -
  have a: "dropWhile (\<lambda>c. c \<noteq> quote) (pre @ quote # v @ quote # post) = quote # v @ quote # post"
    using assms(1) by (rule dropWhile_until)
  have b: "dropWhile (\<lambda>c. c \<noteq> quote) (rev post @ quote # rev v) = quote # rev v"
    using assms(3) by (intro dropWhile_until) simp
  show ?thesis by (simp add: between_quotes_def a b)
qed

text \<open>
  Claim C4, as the specification states it: for a field line whose value is in single
  quotes the tokenizer returns the text strictly between the first and the last quote of
  the line, and an empty quoted value gives the empty string. The regular expressions stop
  at the first quote after the opening one, so with more quotes on the line the value is
  shorter than that text; and the expressions of analyze\_framery.py ask for a value that
  is not empty, so \<open>extract_property_classes\<close> passes over an empty quoted value.
\<close>

theorem quoted_value_no_last_quote:
  "extract_price_data (''var_cond: '' @ [quote] @ ''a'' @ [quote] @ '' '' @ [quote] @ ''b'' @ [quote])
     = [[(''var_cond'', ''a'')]] \<and>
   between_quotes (''var_cond: '' @ [quote] @ ''a'' @ [quote] @ '' '' @ [quote] @ ''b'' @ [quote])
     = ''a'' @ [quote] @ '' '' @ [quote] @ ''b'' \<and>
   extract_property_classes (''prop_class: '' @ [quote, quote]) = [] \<and>
   between_quotes (''prop_class: '' @ [quote, quote]) = []"
  by (simp add: extract_price_data_def price_data_line_def field_step_def price_fields_def
      flush_def match_here_def quote_def between_quotes_def extract_property_classes_def
      property_class_line_def)

lemma split_on_single: "c \<notin> set s \<Longrightarrow> split_on c s = [s]"
  by (induction s) auto

lemma field_step_other:
  "k \<noteq> f \<Longrightarrow> map_of (field_step line cur f) k = map_of cur k"
  by (simp add: field_step_def update_conv' split: option.splits)

lemma fields_loop_name:
  assumes "\<And>c. field_step line c name = AList.update name v c" and "name \<in> set fs"
  shows "map_of (foldl (field_step line) cur fs) name = Some v"
  using assms(2)
proof (induction fs rule: rev_induct)
  case Nil
  then show ?case by simp
next
  case (snoc f fs)
  show ?case
  proof (cases "f = name")
    case True
    then show ?thesis by (simp add: assms(1) update_conv')
  next
    case False
    then have "name \<in> set fs" using snoc.prems by simp
    then show ?thesis using snoc.IH False by (simp add: field_step_other)
  qed
qed

lemma field_step_quoted:
  assumes "quote \<notin> set pre" and "quote \<notin> set name" and "quote \<notin> set v"
  shows "field_step (pre @ name @ '': '' @ [quote] @ v @ [quote] @ post) cur name
           = AList.update name v cur"
proof -
  let ?line = "pre @ name @ '': '' @ [quote] @ v @ [quote] @ post"
  have q: "quote \<notin> set (name @ '': '')" using assms(2) by (simp add: quote_def)
  have star: "re_search False (name @ '': '' @ [quote]) ?line = Some v"
    using re_search_field [OF assms(1) q assms(3), of False post] by simp
  have "?line = pre @ (name @ '':'') @ ('' '' @ [quote] @ v @ [quote] @ post)" by simp
  then have c: "contains (name @ '':'') ?line" unfolding contains_iff by blast
  show ?thesis unfolding field_step_def using c star by simp
qed

lemma price_fields_no_quote: "name \<in> set price_fields \<Longrightarrow> quote \<notin> set name"
  by (auto simp: price_fields_def quote_def)

lemma property_classes_loop_nonempty:
  "[] \<notin> set classes \<Longrightarrow> [] \<notin> set (foldl property_class_line classes ls)"
proof (induction ls arbitrary: classes)
  case Nil
  then show ?case by simp
next
  case (Cons l ls)
  have "[] \<notin> set (property_class_line classes l)"
    using Cons.prems re_search_nonempty
    by (auto simp: property_class_line_def split: option.splits)
  then show ?case using Cons.IH by simp
qed

lemma property_class_line_quoted:
  assumes "quote \<notin> set pre" and "quote \<notin> set v" and "v \<noteq> []"
  shows "property_class_line classes
           (pre @ ''prop_class: '' @ [quote] @ v @ [quote] @ post) = List.insert v classes"
proof -
  let ?line = "pre @ ''prop_class: '' @ [quote] @ v @ [quote] @ post"
  have q: "quote \<notin> set (''prop_class'' @ '': '')" by (simp add: quote_def)
  have plus: "re_search True (''prop_class: '' @ [quote]) ?line = Some v"
    using re_search_field [OF assms(1) q assms(2), of True post] assms(3) by simp
  have "?line = pre @ ''prop_class:'' @ ('' '' @ [quote] @ v @ [quote] @ post)" by simp
  then have c: "contains ''prop_class:'' ?line" unfolding contains_iff by blast
  show ?thesis unfolding property_class_line_def using c plus by simp
qed

text \<open>
  Claim C4, amended. Take a line that does not start with \<open>Record\<close> and reads
  \<open>name: 'v'\<close> after any text without a quote and before any text, \<open>v\<close> without a
  quote, \<open>name\<close> one of the fields \<open>article_nr\<close>, \<open>var_cond\<close>, \<open>price_level\<close> of
  \<open>extract_price_data\<close>. The step of \<open>extract_price_data\<close> for the line stores \<open>v\<close> under
  \<open>name\<close>, and the line alone gives one record with \<open>v\<close> under \<open>name\<close>: the value is the
  text between the quote that opens it and the next quote of the line, which is the text
  between the first and the last quote when no other quote follows; an empty quoted value
  is stored as the empty string. For the line with \<open>prop_class\<close> as the name and \<open>v\<close> not
  empty, \<open>extract_property_classes\<close> adds \<open>v\<close> to its classes; it never returns the empty
  string.
\<close>

theorem quoted_value_extracted:
  assumes "quote \<notin> set pre" and "quote \<notin> set v" and "name \<in> set price_fields"
    and "\<not> startswith (pre @ name @ '': '' @ [quote] @ v @ [quote] @ post) ''Record''"
  shows "price_data_line (ps, cur) (pre @ name @ '': '' @ [quote] @ v @ [quote] @ post)
           = (ps, foldl (field_step (pre @ name @ '': '' @ [quote] @ v @ [quote] @ post))
                    cur price_fields) \<and>
         map_of (snd (price_data_line (ps, cur)
                   (pre @ name @ '': '' @ [quote] @ v @ [quote] @ post))) name = Some v \<and>
         (CHR 0x0A \<notin> set (pre @ name @ v @ post) \<longrightarrow>
            (\<exists>r. extract_price_data (pre @ name @ '': '' @ [quote] @ v @ [quote] @ post) = [r] \<and>
                 map_of r name = Some v)) \<and>
         (quote \<notin> set post \<longrightarrow>
            between_quotes (pre @ name @ '': '' @ [quote] @ v @ [quote] @ post) = v) \<and>
         (v \<noteq> [] \<longrightarrow>
            property_class_line classes (pre @ ''prop_class: '' @ [quote] @ v @ [quote] @ post)
              = List.insert v classes) \<and>
         (v \<noteq> [] \<and> CHR 0x0A \<notin> set (pre @ v @ post) \<longrightarrow>
            extract_property_classes (pre @ ''prop_class: '' @ [quote] @ v @ [quote] @ post)
              = [v]) \<and>
         [] \<notin> set (extract_property_classes output)"
proof -
  let ?line = "pre @ name @ '': '' @ [quote] @ v @ [quote] @ post"
  let ?pline = "pre @ ''prop_class: '' @ [quote] @ v @ [quote] @ post"
  have nq: "quote \<notin> set name" using assms(3) by (rule price_fields_no_quote)
  have step: "field_step ?line c name = AList.update name v c" for c
    using assms(1) nq assms(2) by (rule field_step_quoted)
  have l: "price_data_line (ps', cur') ?line = (ps', foldl (field_step ?line) cur' price_fields)"
    for ps' cur'
    using assms(4) by (simp add: price_data_line_def)
  have m: "map_of (foldl (field_step ?line) cur' price_fields) name = Some v" for cur'
    using step assms(3) by (rule fields_loop_name)
  have one: "\<exists>r. extract_price_data ?line = [r] \<and> map_of r name = Some v"
    if "CHR 0x0A \<notin> set (pre @ name @ v @ post)"
  proof -
    have "CHR 0x0A \<notin> set ?line" using that by (simp add: quote_def)
    then have s: "split_on CHR 0x0A ?line = [?line]" by (rule split_on_single)
    have ne: "foldl (field_step ?line) [] price_fields \<noteq> []" using m [of "[]"] by auto
    have "extract_price_data ?line = [foldl (field_step ?line) [] price_fields]"
      unfolding extract_price_data_def s using l [of "[]" "[]"] ne by (simp add: flush_def)
    then show ?thesis using m [of "[]"] by simp
  qed
  have b: "between_quotes ?line = v" if "quote \<notin> set post"
  proof -
    have "quote \<notin> set (pre @ name @ '': '')" using assms(1) nq by (simp add: quote_def)
    then have "between_quotes ((pre @ name @ '': '') @ quote # v @ quote # post) = v"
      using assms(2) that by (rule between_quotes_field)
    then show ?thesis by simp
  qed
  have p: "property_class_line classes ?pline = List.insert v classes" if "v \<noteq> []"
    using assms(1) assms(2) that by (rule property_class_line_quoted)
  have pe: "extract_property_classes ?pline = [v]" if "v \<noteq> [] \<and> CHR 0x0A \<notin> set (pre @ v @ post)"
  proof -
    have "CHR 0x0A \<notin> set ?pline" using that by (simp add: quote_def)
    then have s: "split_on CHR 0x0A ?pline = [?pline]" by (rule split_on_single)
    have "property_class_line [] ?pline = [v]"
      using property_class_line_quoted [OF assms(1) assms(2), of "[]" post] that by simp
    then show ?thesis unfolding extract_property_classes_def s by simp
  qed
  have n: "[] \<notin> set (extract_property_classes output)"
    using property_classes_loop_nonempty [of "[]" "split_on CHR 0x0A output"]
    by (simp add: extract_property_classes_def)
  show ?thesis using l [of ps cur] m [of cur] one b p pe n by simp
qed


theorem quoted_value_extracted_witness:
  "quote \<notin> set ''  '' \<and> quote \<notin> set '''' \<and> ''var_cond'' \<in> set price_fields \<and>
   \<not> startswith (''  var_cond: '' @ [quote, quote] @ '','') ''Record'' \<and>
   price_data_line ([], [(''var_cond'', ''X'')]) (''  var_cond: '' @ [quote, quote] @ '','')
     = ([], [(''var_cond'', [])]) \<and>
   extract_price_data (''  var_cond: '' @ [quote, quote] @ '','') = [[(''var_cond'', [])]] \<and>
   between_quotes (''  var_cond: '' @ [quote, quote] @ '','') = [] \<and>
   quote \<notin> set ''MG_GLOBAL'' \<and> ''MG_GLOBAL'' \<noteq> [] \<and>
   property_class_line [''A''] (''  prop_class: '' @ [quote] @ ''MG_GLOBAL'' @ [quote] @ '','')
     = [''MG_GLOBAL'', ''A''] \<and>
   extract_property_classes (''  prop_class: '' @ [quote] @ ''MG_GLOBAL'' @ [quote] @ '','')
     = [''MG_GLOBAL'']"
  using quoted_value_extracted [where pre = "''  ''" and v = "[]" and name = "''var_cond''"
      and post = "'',''" and ps = "[]" and cur = "[(''var_cond'', ''X'')]"]
    quoted_value_extracted [where pre = "''  ''" and v = "''MG_GLOBAL''" and name = "''var_cond''"
      and post = "'',''" and classes = "[''A'']"]
  by (simp add: quote_def price_fields_def field_step_def match_here_def extract_price_data_def
      price_data_line_def flush_def)

section \<open>Projection\<close>

lemma segments_nonempty: "segments ts \<noteq> []"
  by (induction ts rule: segments.induct) (auto split: list.splits)

lemma segments_Field:
  "segments (Field k v # ts) = (Field k v # hd (segments ts)) # tl (segments ts)"
  using segments_nonempty [of ts] by (cases "segments ts") auto

lemma segments_Ignorable:
  "segments (Ignorable # ts) = (Ignorable # hd (segments ts)) # tl (segments ts)"
  using segments_nonempty [of ts] by (cases "segments ts") auto

lemma flush_filter: "flush ps cur = ps @ filter (\<lambda>r. r \<noteq> []) [cur]"
  by (simp add: flush_def)

lemma assemble_segments_gen:
  "flush (fst (foldl assemble_step (ps, cur) ts)) (snd (foldl assemble_step (ps, cur) ts))
     = ps @ filter (\<lambda>r. r \<noteq> [])
              (foldl field_write cur (hd (segments ts)) # map record_of (tl (segments ts)))"
proof (induction ts arbitrary: ps cur)
  case Nil
  then show ?case by (simp add: flush_def)
next
  case (Cons t ts)
  show ?case
  proof (cases t)
    case Boundary
    have "segments ts = hd (segments ts) # tl (segments ts)"
      using segments_nonempty [of ts] by simp
    then have m: "map record_of (segments ts)
        = foldl field_write [] (hd (segments ts)) # map record_of (tl (segments ts))"
      by (metis list.simps(9) record_of_def)
    show ?thesis using Cons.IH [of "flush ps cur" "[]"] Boundary m
      by (simp add: flush_def)
  next
    case (Field k v)
    show ?thesis using Cons.IH [of ps "AList.update k v cur"] Field
      by (simp add: segments_Field del: segments.simps)
  next
    case Ignorable
    show ?thesis using Cons.IH [of ps cur] Ignorable
      by (simp add: segments_Ignorable del: segments.simps)
  qed
qed

lemma assemble_segments:
  "assemble ts = filter (\<lambda>r. r \<noteq> []) (map record_of (segments ts))"
proof -
  have "segments ts = hd (segments ts) # tl (segments ts)"
    using segments_nonempty [of ts] by simp
  then have m: "map record_of (segments ts)
      = foldl field_write [] (hd (segments ts)) # map record_of (tl (segments ts))"
    by (metis list.simps(9) record_of_def)
  show ?thesis using assemble_segments_gen [of "[]" "[]" ts] m
    by (simp add: assemble_def case_prod_unfold)
qed

lemma field_write_last_field:
  "map_of (foldl field_write cur seg) k
     = (case last_field seg k of Some v \<Rightarrow> Some v | None \<Rightarrow> map_of cur k)"
proof (induction seg arbitrary: cur)
  case Nil
  then show ?case by simp
next
  case (Cons t seg)
  show ?case
  proof (cases t)
    case (Field k' v)
    then show ?thesis using Cons.IH [of "AList.update k' v cur"]
      by (simp add: update_conv' split: option.splits)
  qed (use Cons.IH [of cur] in \<open>simp_all split: option.splits\<close>)
qed

lemma record_of_last_field: "map_of (record_of seg) k = last_field seg k"
  by (simp add: record_of_def field_write_last_field split: option.splits)

lemma price_data_token_field:
  "Field k v \<in> set (price_data_token line) \<longleftrightarrow>
     k \<in> set price_fields \<and> \<not> startswith line ''Record'' \<and> contains (k @ '':'') line \<and>
     re_search False (k @ '': '' @ [quote]) line = Some v"
  by (auto simp: price_data_token_def field_tokens_def split: if_splits option.splits)

lemma py_eq_str: "py_eq x (JStr s) \<longleftrightarrow> x = JStr s"
  by (cases x) simp_all

lemma level_test:
  "s \<noteq> [] \<Longrightarrow>
   py_eq (json_get j ''level'' (JStr [])) (JStr s) \<longleftrightarrow> map_of j ''level'' = Some (JStr s)"
  by (auto simp: py_eq_str json_get_def split: option.splits)

lemma price_table_snoc:
  "price_table (js @ [j]) = price_record_step (price_table js) j"
  by (simp add: price_table_def)

lemma take_snoc_short: "length ys < n \<Longrightarrow> take n (ys @ [z]) = take n ys @ [z]"
  by simp

lemma take_snoc_long: "n \<le> length ys \<Longrightarrow> take n (ys @ [z]) = take n ys"
  by simp

lemma price_table_exact:
  "base_count (price_table js)
     = length (filter (\<lambda>j. map_of j ''level'' = Some (JStr ''B'')) js) \<and>
   surcharge_count (price_table js)
     = length (filter (\<lambda>j. map_of j ''level'' = Some (JStr ''X'')) js) \<and>
   base_prices (price_table js)
     = take 10 (map (\<lambda>j. [(''article_nr'', json_get j ''article_nr'' (JStr [])),
                            (''var_cond'', json_get j ''var_cond'' (JStr [])),
                            (''price'', json_get j ''price'' (JInt 0))])
                 (filter (\<lambda>j. map_of j ''level'' = Some (JStr ''B'')) js)) \<and>
   surcharges (price_table js)
     = take 10 (map (\<lambda>j. [(''article_nr'', json_get j ''article_nr'' (JStr [])),
                            (''var_cond'', json_get j ''var_cond'' (JStr [])),
                            (''price'', json_get j ''price'' (JInt 0))])
                 (filter (\<lambda>j. map_of j ''level'' = Some (JStr ''X'')) js))"
proof (induction js rule: rev_induct)
  case Nil
  then show ?case by (simp add: price_table_def)
next
  case (snoc j js)
  define S where "S = (\<lambda>j. [(''article_nr'', json_get j ''article_nr'' (JStr [])),
                            (''var_cond'', json_get j ''var_cond'' (JStr [])),
                            (''price'', json_get j ''price'' (JInt 0))])"
  define B where "B = filter (\<lambda>j. map_of j ''level'' = Some (JStr ''B'')) js"
  define X where "X = filter (\<lambda>j. map_of j ''level'' = Some (JStr ''X'')) js"
  define st where "st = price_table js"
  have ih: "base_count st = length B" "surcharge_count st = length X"
    "base_prices st = take 10 (map S B)" "surcharges st = take 10 (map S X)"
    using snoc.IH unfolding S_def B_def X_def st_def by simp_all
  have tb: "py_eq (json_get j ''level'' (JStr [])) (JStr ''B'') \<longleftrightarrow>
            map_of j ''level'' = Some (JStr ''B'')"
    by (rule level_test) simp
  have tx: "py_eq (json_get j ''level'' (JStr [])) (JStr ''X'') \<longleftrightarrow>
            map_of j ''level'' = Some (JStr ''X'')"
    by (rule level_test) simp
  consider (b) "map_of j ''level'' = Some (JStr ''B'')"
    | (x) "map_of j ''level'' = Some (JStr ''X'')"
    | (o) "map_of j ''level'' \<noteq> Some (JStr ''B'')" "map_of j ''level'' \<noteq> Some (JStr ''X'')"
    by blast
  then have
    "base_count (price_record_step st j)
       = length (filter (\<lambda>j. map_of j ''level'' = Some (JStr ''B'')) (js @ [j])) \<and>
     surcharge_count (price_record_step st j)
       = length (filter (\<lambda>j. map_of j ''level'' = Some (JStr ''X'')) (js @ [j])) \<and>
     base_prices (price_record_step st j)
       = take 10 (map S (filter (\<lambda>j. map_of j ''level'' = Some (JStr ''B'')) (js @ [j]))) \<and>
     surcharges (price_record_step st j)
       = take 10 (map S (filter (\<lambda>j. map_of j ''level'' = Some (JStr ''X'')) (js @ [j])))"
  proof cases
    case b
    then have nx: "map_of j ''level'' \<noteq> Some (JStr ''X'')" by simp
    have step: "price_record_step st j =
        st\<lparr>base_count := base_count st + 1,
           base_prices := (if base_count st + 1 \<le> 10 then base_prices st @ [S j]
                           else base_prices st)\<rparr>"
      using b tb by (simp add: price_record_step_def Let_def S_def)
    have bp: "(if length B + 1 \<le> 10 then take 10 (map S B) @ [S j] else take 10 (map S B))
        = take 10 (map S B @ [S j])"
      by simp
    show ?thesis unfolding step using b nx ih bp
      by (simp add: B_def [symmetric] X_def [symmetric])
  next
    case x
    then have nb: "map_of j ''level'' \<noteq> Some (JStr ''B'')" by simp
    have step: "price_record_step st j =
        st\<lparr>surcharge_count := surcharge_count st + 1,
           surcharges := (if surcharge_count st + 1 \<le> 10 then surcharges st @ [S j]
                          else surcharges st)\<rparr>"
      using x nb tb tx by (simp add: price_record_step_def Let_def S_def)
    have bp: "(if length X + 1 \<le> 10 then take 10 (map S X) @ [S j] else take 10 (map S X))
        = take 10 (map S X @ [S j])"
      by simp
    show ?thesis unfolding step using x nb ih bp
      by (simp add: B_def [symmetric] X_def [symmetric])
  next
    case o
    have step: "price_record_step st j = st"
      using o tb tx by (simp add: price_record_step_def Let_def)
    show ?thesis unfolding step using o ih
      by (simp add: B_def [symmetric] X_def [symmetric])
  qed
  then show ?case unfolding price_table_snoc st_def [symmetric] S_def .
qed

text \<open>
  Claim C6, as the specification states it: projection gives only the requested fields
  that are present in the record, and never a default for an absent one. The JSON path
  reads every field with \<open>record.get(name, default)\<close>: a record without \<open>var_cond\<close>,
  \<open>article_nr\<close> and \<open>price\<close> gives the same sample as a record that has \<open>var_cond\<close> with
  the empty string.
\<close>

theorem json_defaults_synthesized:
  "base_prices (price_table [[(''level'', JStr ''B'')]])
     = [[(''article_nr'', JStr []), (''var_cond'', JStr []), (''price'', JInt 0)]] \<and>
   base_prices (price_table [[(''level'', JStr ''B''), (''var_cond'', JStr [])]])
     = [[(''article_nr'', JStr []), (''var_cond'', JStr []), (''price'', JInt 0)]]"
  by (simp add: price_table_def price_record_step_def json_get_def)

text \<open>
  Claim C6, amended. On the text path \<open>extract_price_data\<close> gives, for every stretch of
  lines between lines that start with \<open>Record\<close>, the record that has each requested name
  (\<open>article_nr\<close>, \<open>var_cond\<close>, \<open>price_level\<close>) with the value of the last line of that
  stretch on which the expression of the name matches, and no key for a name that no line
  of the stretch gives; a stretch without such a line gives no record. So on the text path
  no absent field gets a default, and a missing field differs from a field with the empty
  string. On the JSON path the samples are, up to ten of each kind, the values of
  \<open>article_nr\<close>, \<open>var_cond\<close> and \<open>price\<close> of the records whose \<open>level\<close> is the string \<open>B\<close>
  or \<open>X\<close>, where an absent field stands as the empty string, the empty string and 0.
\<close>

theorem projection_only_present_fields:
  "extract_price_data output
     = filter (\<lambda>r. r \<noteq> []) (map record_of (segments (price_data_tokens output))) \<and>
   price_data_tokens output = concat (map price_data_token (split_on CHR 0x0A output)) \<and>
   (Field k v \<in> set (price_data_token line) \<longleftrightarrow>
      k \<in> set price_fields \<and> \<not> startswith line ''Record'' \<and> contains (k @ '':'') line \<and>
      re_search False (k @ '': '' @ [quote]) line = Some v) \<and>
   (Boundary \<in> set (price_data_token line) \<longleftrightarrow> startswith line ''Record'') \<and>
   map_of (record_of seg) k = last_field seg k \<and>
   base_prices (price_table js)
     = take 10 (map (\<lambda>j. [(''article_nr'', json_get j ''article_nr'' (JStr [])),
                            (''var_cond'', json_get j ''var_cond'' (JStr [])),
                            (''price'', json_get j ''price'' (JInt 0))])
                 (filter (\<lambda>j. map_of j ''level'' = Some (JStr ''B'')) js)) \<and>
   surcharges (price_table js)
     = take 10 (map (\<lambda>j. [(''article_nr'', json_get j ''article_nr'' (JStr [])),
                            (''var_cond'', json_get j ''var_cond'' (JStr [])),
                            (''price'', json_get j ''price'' (JInt 0))])
                 (filter (\<lambda>j. map_of j ''level'' = Some (JStr ''X'')) js)) \<and>
   json_get j k d = (case map_of j k of Some x \<Rightarrow> x | None \<Rightarrow> d)"
proof -
  have a: "extract_price_data output
     = filter (\<lambda>r. r \<noteq> []) (map record_of (segments (price_data_tokens output)))"
    by (simp add: extract_price_data_assemble assemble_segments)
  have b: "Boundary \<in> set (price_data_token line) \<longleftrightarrow> startswith line ''Record''"
    by (auto simp: price_data_token_def field_tokens_def split: if_splits option.splits)
  show ?thesis
    using a b price_data_token_field [of k v line] record_of_last_field [of seg k]
      price_table_exact [of js]
    by (simp add: price_data_tokens_def json_get_def)
qed

theorem projection_only_present_fields_witness:
  "extract_price_data (''Record 1'' @ [CHR 0x0A] @ ''article_nr: '' @ [quote] @ ''A'' @ [quote]
      @ [CHR 0x0A] @ ''Record 2'' @ [CHR 0x0A] @ ''var_cond: '' @ [quote, quote])
     = [[(''article_nr'', ''A'')], [(''var_cond'', [])]] \<and>
   segments (price_data_tokens (''Record 1'' @ [CHR 0x0A] @ ''article_nr: '' @ [quote] @ ''A''
      @ [quote] @ [CHR 0x0A] @ ''Record 2'' @ [CHR 0x0A] @ ''var_cond: '' @ [quote, quote]))
     = [[], [Field ''article_nr'' ''A''], [Field ''var_cond'' []]] \<and>
   map_of (record_of [Field ''var_cond'' []]) ''var_cond'' = Some [] \<and>
   map_of (record_of [Field ''var_cond'' []]) ''article_nr'' = None \<and>
   base_prices (price_table [[(''level'', JStr ''B'')], [(''level'', JInt 1)]])
     = [[(''article_nr'', JStr []), (''var_cond'', JStr []), (''price'', JInt 0)]]"
  using projection_only_present_fields [of "''Record 1'' @ [CHR 0x0A] @ ''article_nr: '' @ [quote]
      @ ''A'' @ [quote] @ [CHR 0x0A] @ ''Record 2'' @ [CHR 0x0A] @ ''var_cond: '' @ [quote, quote]"
      "''var_cond''" "[]" "''var_cond: '' @ [quote, quote]" "[Field ''var_cond'' []]"
      "[[(''level'', JStr ''B'')], [(''level'', JInt 1)]]"]
    projection_only_present_fields [of "[]" "''article_nr''" "[]" "[]" "[Field ''var_cond'' []]" "[]"]
  by (simp add: quote_def price_fields_def field_tokens_def match_here_def price_data_token_def
      record_of_def json_get_def)

section \<open>The two entry paths\<close>






















end
